theory Spec2Isabelle
  imports Main "HOL-Library.Sublist"
begin

section \<open>Strings\<close>

text \<open>
  A JavaScript string is modelled as a \<^typ>\<open>string\<close>; a \<^typ>\<open>char\<close> stands for a
  UTF-16 code unit below 256. \<open>String.prototype.trim\<close> strips the WhiteSpace and
  LineTerminator code points from both ends; those below 256 are TAB, LF, VT, FF, CR,
  SPACE and NBSP.
\<close>

definition isWhiteSpace :: "char \<Rightarrow> bool" where
  "isWhiteSpace c = (of_char c \<in> {9, 10, 11, 12, 13, 32, 160 :: nat})"

definition trim :: "string \<Rightarrow> string" where
  "trim str = rev (dropWhile isWhiteSpace (rev (dropWhile isWhiteSpace str)))"

text \<open>\<open>String.prototype.includes\<close>: does \<open>sub\<close> occur at some position of the string.\<close>

fun str_includes :: "string \<Rightarrow> string \<Rightarrow> bool" where
  "str_includes [] sub = (sub = [])"
| "str_includes (c # cs) sub = (prefix sub (c # cs) \<or> str_includes cs sub)"

text \<open>The decimal rendering of a number inside a template literal.\<close>

fun decimal :: "nat \<Rightarrow> string" where
  "decimal n =
     (if n < 10 then [char_of (48 + n)]
      else decimal (n div 10) @ [char_of (48 + n mod 10)])"

declare decimal.simps [simp del]

text \<open>
  \<open>Array.prototype.findIndex\<close>: the index of the first element satisfying the
  predicate, \<open>-1\<close> when there is none.
\<close>

fun findIndex :: "('a \<Rightarrow> bool) \<Rightarrow> 'a list \<Rightarrow> int" where
  "findIndex P [] = - 1"
| "findIndex P (x # xs) =
     (if P x then 0
      else (let i = findIndex P xs in if i = - 1 then - 1 else i + 1))"


section \<open>The credential store (services/apiKeyManager.ts)\<close>

record ApiKeyEntry =
  id' :: string
  name :: string
  key :: string
  createdAt :: nat

text \<open>
  \<open>localStorage\<close> restricted to the two items the manager owns. The item
  \<open>cyberforge_api_keys\<close> holds the JSON text of the entry array; only the manager
  writes it, with \<open>JSON.stringify\<close>, so reading it back with \<open>JSON.parse\<close> gives
  the array that was written, and the model stores the array. \<open>None\<close> is an absent
  item (\<open>getItem\<close> returns \<open>null\<close>).
\<close>

record storage =
  cyberforge_api_keys :: "ApiKeyEntry list option"
  cyberforge_active_key_id :: "string option"

definition emptyStorage :: storage where
  "emptyStorage = \<lparr>cyberforge_api_keys = None, cyberforge_active_key_id = None\<rparr>"

definition getAll :: "storage \<Rightarrow> ApiKeyEntry list" where
  "getAll s = (case cyberforge_api_keys s of None \<Rightarrow> [] | Some stored \<Rightarrow> stored)"

definition getActiveId :: "storage \<Rightarrow> string option" where
  "getActiveId s = cyberforge_active_key_id s"

definition setActive :: "string \<Rightarrow> storage \<Rightarrow> bool \<times> storage" where
  "setActive i s =
     (let keys = getAll s;
          keyExists = (\<exists>k \<in> set keys. id' k = i)
      in if keyExists then (True, s\<lparr>cyberforge_active_key_id := Some i\<rparr>)
         else (False, s))"

text \<open>
  \<open>add\<close> reads the clock twice and the random generator once: \<open>now\<close> and \<open>now'\<close>
  are the two values of \<open>Date.now()\<close>, \<open>rnd\<close> is the text
  \<open>Math.random().toString(36).substr(2, 9)\<close>.
\<close>

definition add :: "nat \<Rightarrow> string \<Rightarrow> nat \<Rightarrow> string \<Rightarrow> string \<Rightarrow> storage \<Rightarrow> ApiKeyEntry \<times> storage" where
  "add now rnd now' nm ky s =
     (let keys = getAll s;
          newKey = \<lparr>id' = ''key_'' @ decimal now @ ''_'' @ rnd,
                    name = trim nm, key = trim ky, createdAt = now'\<rparr>;
          keys = keys @ [newKey];
          s = s\<lparr>cyberforge_api_keys := Some keys\<rparr>
      in if length keys = 1 then (newKey, snd (setActive (id' newKey) s))
         else (newKey, s))"

definition delete :: "string \<Rightarrow> storage \<Rightarrow> bool \<times> storage" where
  "delete i s =
     (let keys = getAll s;
          filtered = filter (\<lambda>k. id' k \<noteq> i) keys
      in if length filtered = length keys then (False, s)
         else
           (let s = s\<lparr>cyberforge_api_keys := Some filtered\<rparr>;
                activeId = getActiveId s
            in if activeId = Some i then
                 (if length filtered > 0 then (True, snd (setActive (id' (filtered ! 0)) s))
                  else (True, s\<lparr>cyberforge_active_key_id := None\<rparr>))
               else (True, s)))"

text \<open>\<open>!activeId\<close> holds for \<open>null\<close> and for the empty string.\<close>

definition getActive :: "storage \<Rightarrow> ApiKeyEntry option" where
  "getActive s =
     (case getActiveId s of
        None \<Rightarrow> None
      | Some activeId \<Rightarrow>
          if activeId = [] then None
          else find (\<lambda>k. id' k = activeId) (getAll s))"

definition getActiveKey :: "storage \<Rightarrow> string option" where
  "getActiveKey s = (case getActive s of None \<Rightarrow> None | Some active \<Rightarrow> Some (key active))"

definition hasKeys :: "storage \<Rightarrow> bool" where
  "hasKeys s = (length (getAll s) > 0)"

definition update :: "string \<Rightarrow> string \<Rightarrow> string \<Rightarrow> storage \<Rightarrow> bool \<times> storage" where
  "update i nm ky s =
     (let keys = getAll s;
          index = findIndex (\<lambda>k. id' k = i) keys
      in if index = - 1 then (False, s)
         else
           (let keys = keys[nat index := (keys ! nat index)\<lparr>name := trim nm, key := trim ky\<rparr>]
            in (True, s\<lparr>cyberforge_api_keys := Some keys\<rparr>)))"

definition clearAll :: "storage \<Rightarrow> storage" where
  "clearAll s = s\<lparr>cyberforge_api_keys := None, cyberforge_active_key_id := None\<rparr>"


section \<open>Rotation (services/geminiService.ts)\<close>

text \<open>
  \<open>allKeys[nextIndex]\<close> is \<open>undefined\<close> out of range, and \<open>nextKey && ...\<close> is then
  false. The remainder \<open>%\<close> is taken of a number that is never negative
  (\<open>currentIndex \<ge> -1\<close>), where it agrees with \<open>mod\<close>.
\<close>

definition tryRotateApiKey :: "storage \<Rightarrow> bool \<times> storage" where
  "tryRotateApiKey s =
     (let allKeys = getAll s;
          currentActiveId = getActiveId s
      in if length allKeys \<le> 1 then (False, s)
         else
           (let currentIndex = findIndex (\<lambda>k. Some (id' k) = currentActiveId) allKeys;
                nextIndex = nat ((currentIndex + 1) mod int (length allKeys))
            in if nextIndex < length allKeys
                  \<and> Some (id' (allKeys ! nextIndex)) \<noteq> currentActiveId
               then (True, snd (setActive (id' (allKeys ! nextIndex)) s))
               else (False, s)))"

text \<open>The outcomes and states of \<open>n\<close> successive calls of the rotator.\<close>

fun rotations :: "nat \<Rightarrow> storage \<Rightarrow> (bool \<times> storage) list" where
  "rotations 0 s = []"
| "rotations (Suc n) s =
     (let (rotated, s') = tryRotateApiKey s in (rotated, s') # rotations n s')"


text \<open>A sequence of store operations, as a caller (the settings screen) issues them.\<close>

datatype store_op =
    Add nat string nat string string
  | Update string string string
  | Delete string
  | SetActive string
  | ClearAll

fun apply_op :: "store_op \<Rightarrow> storage \<Rightarrow> storage" where
  "apply_op (Add now rnd now' nm ky) s = snd (add now rnd now' nm ky s)"
| "apply_op (Update i nm ky) s = snd (update i nm ky s)"
| "apply_op (Delete i) s = snd (delete i s)"
| "apply_op (SetActive i) s = snd (setActive i s)"
| "apply_op ClearAll s = clearAll s"

fun run_ops :: "store_op list \<Rightarrow> storage \<Rightarrow> storage" where
  "run_ops [] s = s"
| "run_ops (op # ops) s = run_ops ops (apply_op op s)"

text \<open>The active pointer is unset or names an entry of the store.\<close>

definition active_valid :: "storage \<Rightarrow> bool" where
  "active_valid s =
     (case getActiveId s of None \<Rightarrow> True | Some a \<Rightarrow> a \<in> id' ` set (getAll s))"


section \<open>The rate-limit classifier\<close>

text \<open>
  A thrown value, as far as the classifier looks at it: \<open>null\<close> or \<open>undefined\<close>, or a
  value with its \<open>message\<close> property (\<open>None\<close> when it has none) and the text its
  \<open>toString()\<close> returns.
\<close>

datatype js_error = Nullish | Thrown (message: "string option") (toString: string)

text \<open>\<open>new Error(msg)\<close>; its \<open>toString()\<close> is the name followed by the message.\<close>

definition Error :: "string \<Rightarrow> js_error" where
  "Error msg = Thrown (Some msg) (if msg = [] then ''Error'' else ''Error: '' @ msg)"

text \<open>\<open>error?.message || error?.toString() || ''\<close>: an empty string is falsy.\<close>

fun errorStr :: "js_error \<Rightarrow> string" where
  "errorStr Nullish = []"
| "errorStr (Thrown None str) = (if str \<noteq> [] then str else [])"
| "errorStr (Thrown (Some msg) str) =
     (if msg \<noteq> [] then msg else if str \<noteq> [] then str else [])"

definition isRateLimitError :: "js_error \<Rightarrow> bool" where
  "isRateLimitError error =
     (let errorStr = errorStr error
      in str_includes errorStr ''429'' \<or>
         str_includes errorStr ''Too Many Requests'' \<or>
         str_includes errorStr ''RESOURCE_EXHAUSTED'' \<or>
         str_includes errorStr ''quota'')"










section \<open>The executor\<close>

text \<open>
  The effects of a run, in the order they happen: a suspension of so many milliseconds
  (\<open>sleep\<close>), the invocation of the operation for the attempt of that index (from 0),
  the outcome of a call of the rotator, and a request sent to the remote service with
  the given credential.
\<close>

datatype event = Sleep nat | Invoke nat | Rotated bool | Remote string

text \<open>
  The operation \<open>apiCall\<close> is a closure over the outside world: what it does at its
  \<open>n\<close>-th invocation may depend on \<open>n\<close> and on the store it reads. It gives the
  credentials of the remote requests it sent and either the value it resolved to
  (\<open>Inr\<close>) or the value it threw (\<open>Inl\<close>).

  \<open>attempts\<close> is the \<open>for\<close> loop from the iteration \<open>attempt\<close> on. Inside the
  body \<open>attempt < maxRetries\<close>, so \<open>maxRetries - 1\<close> is not negative. Delays are
  whole milliseconds.
\<close>

type_synonym 'a apiCall = "nat \<Rightarrow> storage \<Rightarrow> string list \<times> (js_error + 'a)"
type_synonym 'a run = "event list \<times> (js_error + 'a) \<times> storage"

definition run_trace :: "'a run \<Rightarrow> event list" where
  "run_trace r = fst r"

definition run_result :: "'a run \<Rightarrow> js_error + 'a" where
  "run_result r = fst (snd r)"

definition run_store :: "'a run \<Rightarrow> storage" where
  "run_store r = snd (snd r)"

definition emit :: "event list \<Rightarrow> 'a run \<Rightarrow> 'a run" where
  "emit evs r = (case r of (tr, res, s) \<Rightarrow> (evs @ tr, res, s))"

function attempts :: "'a apiCall \<Rightarrow> nat \<Rightarrow> nat \<Rightarrow> nat \<Rightarrow> js_error \<Rightarrow> storage \<Rightarrow> 'a run" where
  "attempts apiCall maxRetries baseDelay attempt lastError s =
     (if attempt < maxRetries then
        (let waited = (if attempt > 0 then [Sleep (baseDelay * 2 ^ (attempt - 1))] else []);
             tried = waited @ [Invoke attempt] @ map Remote (fst (apiCall attempt s))
         in case snd (apiCall attempt s) of
              Inr v \<Rightarrow> (tried, Inr v, s)
            | Inl error \<Rightarrow>
                (let rotating = (isRateLimitError error \<and> attempt < maxRetries - 1);
                     rotated = (rotating \<and> fst (tryRotateApiKey s));
                     s' = (if rotating then snd (tryRotateApiKey s) else s);
                     handled = tried @
                       (if rotating then
                          (if rotated then [Rotated True]
                           else [Rotated False, Sleep (5000 * (attempt + 1))])
                        else [])
                 in if \<not> rotated \<and> attempt = maxRetries - 1 then (handled, Inl error, s')
                    else emit handled
                           (attempts apiCall maxRetries baseDelay (attempt + 1) error s')))
      else ([], Inl lastError, s))"
  by pat_completeness auto
termination
  by (relation "measure (\<lambda>(apiCall, maxRetries, baseDelay, attempt, lastError, s).
                   maxRetries - attempt)") auto

declare attempts.simps [simp del]

definition executeWithRetry :: "'a apiCall \<Rightarrow> nat \<Rightarrow> nat \<Rightarrow> storage \<Rightarrow> 'a run" where
  "executeWithRetry apiCall maxRetries baseDelay s =
     attempts apiCall maxRetries baseDelay 0 Nullish s"

text \<open>
  The events of one attempt up to the end of its invocation: the backoff, the
  invocation, the requests the operation sent.
\<close>

definition tried :: "'a apiCall \<Rightarrow> nat \<Rightarrow> nat \<Rightarrow> storage \<Rightarrow> event list" where
  "tried apiCall baseDelay attempt s =
     (if attempt > 0 then [Sleep (baseDelay * 2 ^ (attempt - 1))] else [])
     @ [Invoke attempt] @ map Remote (fst (apiCall attempt s))"

text \<open>
  What a trace says about the attempts: for each invocation, in order, the total time
  suspended since the previous invocation (since the start, for the first).
\<close>

fun waits :: "nat \<Rightarrow> event list \<Rightarrow> nat list" where
  "waits acc [] = []"
| "waits acc (Sleep d # es) = waits (acc + d) es"
| "waits acc (Invoke n # es) = acc # waits 0 es"
| "waits acc (Rotated b # es) = waits acc es"
| "waits acc (Remote k # es) = waits acc es"

fun invocations :: "event list \<Rightarrow> nat list" where
  "invocations [] = []"
| "invocations (Invoke n # es) = n # invocations es"
| "invocations (e # es) = invocations es"

fun rotationResults :: "event list \<Rightarrow> bool list" where
  "rotationResults [] = []"
| "rotationResults (Rotated b # es) = b # rotationResults es"
| "rotationResults (e # es) = rotationResults es"

fun remoteRequests :: "event list \<Rightarrow> string list" where
  "remoteRequests [] = []"
| "remoteRequests (Remote k # es) = k # remoteRequests es"
| "remoteRequests (e # es) = remoteRequests es"


section \<open>The generation functions\<close>

text \<open>
  Each function wraps one request to the remote service. \<open>remote n apiKey\<close> is what
  the rest of the wrapped operation comes to at its \<open>n\<close>-th invocation once the request
  has been sent with \<open>apiKey\<close>: the value returned or the error thrown. An absent
  result (\<open>undefined\<close>, \<open>null\<close>) is \<open>None\<close>.
\<close>

definition noKeyError :: js_error where
  "noKeyError = Error ''No API key configured. Please add an API key in the API Key Manager.''"

definition generateDesigns :: "(nat \<Rightarrow> string \<Rightarrow> js_error + 'a) \<Rightarrow> storage \<Rightarrow> 'a run" where
  "generateDesigns remote s =
     executeWithRetry
       (\<lambda>n st. case getActiveKey st of
                  None \<Rightarrow> ([], Inl noKeyError)
                | Some apiKey \<Rightarrow>
                    if apiKey = [] then ([], Inl noKeyError)
                    else ([apiKey], remote n apiKey))
       3 3000 s"

definition generateImageForDesign ::
    "(nat \<Rightarrow> string \<Rightarrow> js_error + string option) \<Rightarrow> storage \<Rightarrow> string option run" where
  "generateImageForDesign remote s =
     (case executeWithRetry
             (\<lambda>n st. case getActiveKey st of
                        None \<Rightarrow> ([], Inl noKeyError)
                      | Some apiKey \<Rightarrow>
                          if apiKey = [] then ([], Inl noKeyError)
                          else ([apiKey], remote n apiKey))
             2 2000 s of
        (tr, Inl err, s') \<Rightarrow> (tr, Inr None, s')
      | (tr, Inr v, s') \<Rightarrow> (tr, Inr v, s'))"

definition generatePartDocumentation ::
    "(nat \<Rightarrow> string \<Rightarrow> js_error + string option) \<Rightarrow> storage \<Rightarrow> string option run" where
  "generatePartDocumentation remote s =
     (case getActiveKey s of
        None \<Rightarrow> ([], Inr None, s)
      | Some apiKey \<Rightarrow>
          if apiKey = [] then ([], Inr None, s)
          else
            (case executeWithRetry (\<lambda>n st. ([apiKey], remote n apiKey)) 2 1500 s of
               (tr, Inl err, s') \<Rightarrow> (tr, Inr None, s')
             | (tr, Inr v, s') \<Rightarrow> (tr, Inr v, s')))"

definition generateRealPartAbstract ::
    "(nat \<Rightarrow> string \<Rightarrow> js_error + 'a option) \<Rightarrow> storage \<Rightarrow> 'a option run" where
  "generateRealPartAbstract remote s =
     (case getActiveKey s of
        None \<Rightarrow> ([], Inr None, s)
      | Some apiKey \<Rightarrow>
          if apiKey = [] then ([], Inr None, s)
          else
            (case executeWithRetry (\<lambda>n st. ([apiKey], remote n apiKey)) 2 1500 s of
               (tr, Inl e, s') \<Rightarrow> (tr, Inr None, s')
             | (tr, Inr v, s') \<Rightarrow> (tr, Inr v, s')))"


section \<open>Example stores\<close>

definition entryA :: ApiKeyEntry where
  "entryA = \<lparr>id' = ''A'', name = ''first'', key = ''secret-A'', createdAt = 1\<rparr>"

definition entryB :: ApiKeyEntry where
  "entryB = \<lparr>id' = ''B'', name = ''second'', key = ''secret-B'', createdAt = 2\<rparr>"

definition entryC :: ApiKeyEntry where
  "entryC = \<lparr>id' = ''C'', name = ''third'', key = ''secret-C'', createdAt = 3\<rparr>"

definition entryBlank :: ApiKeyEntry where
  "entryBlank = \<lparr>id' = ''A'', name = ''blank'', key = [], createdAt = 1\<rparr>"

definition storeOf :: "ApiKeyEntry list \<Rightarrow> string option \<Rightarrow> storage" where
  "storeOf ks a = \<lparr>cyberforge_api_keys = Some ks, cyberforge_active_key_id = a\<rparr>"


text \<open>Operations that fail at every invocation, and a remote service that answers.\<close>

definition alwaysRateLimited :: "nat apiCall" where
  "alwaysRateLimited n st = ([], Inl (Error ''429 Too Many Requests''))"

definition alwaysUnreachable :: "nat apiCall" where
  "alwaysUnreachable n st = ([], Inl (Error ''network unreachable''))"

definition remoteOk :: "nat \<Rightarrow> string \<Rightarrow> js_error + nat" where
  "remoteOk n apiKey = Inr n"

definition remoteNone :: "nat \<Rightarrow> string \<Rightarrow> js_error + string option" where
  "remoteNone n apiKey = Inr None"

definition remoteNull :: "nat \<Rightarrow> string \<Rightarrow> js_error + nat option" where
  "remoteNull n apiKey = Inr None"


section \<open>Properties of the store\<close>

lemma filter_length_eq: "(length (filter P xs) = length xs) = (\<forall>x\<in>set xs. P x)"
proof
  assume "length (filter P xs) = length xs"
  with sum_length_filter_compl [of P xs] have "filter (\<lambda>x. \<not> P x) xs = []" by simp
  then show "\<forall>x\<in>set xs. P x" by (simp add: filter_empty_conv)
next
  assume "\<forall>x\<in>set xs. P x"
  then show "length (filter P xs) = length xs" by simp
qed

lemma getAll_keys_update [simp]: "getAll (s\<lparr>cyberforge_api_keys := Some ks\<rparr>) = ks"
  by (simp add: getAll_def)

lemma getAll_active_update [simp]: "getAll (s\<lparr>cyberforge_active_key_id := a\<rparr>) = getAll s"
  by (simp add: getAll_def)

lemma getActiveId_keys_update [simp]:
  "getActiveId (s\<lparr>cyberforge_api_keys := ks\<rparr>) = getActiveId s"
  by (simp add: getActiveId_def)

lemma getActiveId_active_update [simp]:
  "getActiveId (s\<lparr>cyberforge_active_key_id := a\<rparr>) = a"
  by (simp add: getActiveId_def)

lemma setActive_getAll [simp]: "getAll (snd (setActive i s)) = getAll s"
  by (simp add: setActive_def Let_def)

lemma setActive_present:
  "i \<in> id' ` set (getAll s) \<Longrightarrow> setActive i s = (True, s\<lparr>cyberforge_active_key_id := Some i\<rparr>)"
  by (auto simp: setActive_def Let_def)

lemma setActive_absent:
  "i \<notin> id' ` set (getAll s) \<Longrightarrow> setActive i s = (False, s)"
  by (auto simp: setActive_def Let_def)

lemma delete_not_found:
  "i \<notin> id' ` set (getAll s) \<Longrightarrow> delete i s = (False, s)"
  by (auto simp add: delete_def Let_def filter_length_eq image_iff)

lemma delete_found:
  assumes "i \<in> id' ` set (getAll s)"
  shows "fst (delete i s) = True"
    and "getAll (snd (delete i s)) = filter (\<lambda>k. id' k \<noteq> i) (getAll s)"
    and "getActiveId s = Some i \<Longrightarrow> getActiveId (snd (delete i s)) =
          (case filter (\<lambda>k. id' k \<noteq> i) (getAll s) of [] \<Rightarrow> None | k # _ \<Rightarrow> Some (id' k))"
    and "getActiveId s \<noteq> Some i \<Longrightarrow> getActiveId (snd (delete i s)) = getActiveId s"
proof -
  let ?f = "filter (\<lambda>k. id' k \<noteq> i) (getAll s)"
  from assms have ne: "length ?f \<noteq> length (getAll s)"
    by (auto simp: filter_length_eq)
  show "fst (delete i s) = True" using ne by (simp add: delete_def Let_def)
  show "getAll (snd (delete i s)) = ?f" using ne by (simp add: delete_def Let_def)
  show "getActiveId (snd (delete i s)) = (case ?f of [] \<Rightarrow> None | k # _ \<Rightarrow> Some (id' k))"
    if "getActiveId s = Some i"
  proof (cases ?f)
    case Nil
    with ne that show ?thesis by (simp add: delete_def Let_def)
  next
    case (Cons k ks)
    with ne that show ?thesis
      by (simp add: delete_def Let_def setActive_present)
  qed
  show "getActiveId (snd (delete i s)) = getActiveId s" if "getActiveId s \<noteq> Some i"
    using ne that by (simp add: delete_def Let_def)
qed

lemma tryRotateApiKey_few:
  "length (getAll s) \<le> 1 \<Longrightarrow> tryRotateApiKey s = (False, s)"
  by (simp add: tryRotateApiKey_def Let_def)

lemma filter_unique_id:
  assumes "distinct (map id' xs)" and "i \<in> id' ` set xs"
  shows "\<exists>pre e post. xs = pre @ e # post \<and> id' e = i \<and>
           filter (\<lambda>k. id' k \<noteq> i) xs = pre @ post"
proof -
  from assms(2) obtain e where "e \<in> set xs" and e: "id' e = i" by auto
  then obtain pre post where xs: "xs = pre @ e # post" by (auto dest: split_list)
  with assms(1) e have "i \<notin> id' ` set pre" and "i \<notin> id' ` set post"
    by auto
  then have "\<forall>k\<in>set pre. id' k \<noteq> i" and "\<forall>k\<in>set post. id' k \<noteq> i"
    by blast+
  then have "filter (\<lambda>k. id' k \<noteq> i) xs = pre @ post"
    using xs e by simp
  with xs e show ?thesis by blast
qed

text \<open>
  C8. With no entry or a single entry in the store, the rotator returns false and the
  whole store, the active id included, is as it was.
\<close>

theorem C8_rotate_noop:
  "length (getAll s) \<le> 1 \<Longrightarrow> tryRotateApiKey s = (False, s)"
  by (rule tryRotateApiKey_few)

theorem C8_rotate_noop_witness:
  "length (getAll (storeOf [entryA] (Some ''A''))) \<le> 1 \<and>
   tryRotateApiKey (storeOf [entryA] (Some ''A'')) = (False, storeOf [entryA] (Some ''A''))"
  using C8_rotate_noop [of "storeOf [entryA] (Some ''A'')"]
  by (simp add: getAll_def storeOf_def)

text \<open>
  C7. \<open>delete\<close> of an id that no entry has returns false and leaves the store as it
  was. Otherwise it returns true and the entries of that id are gone, the others kept
  in order; with unique ids that is exactly one entry. If the deleted id was the active
  one, the active pointer names the first remaining entry, or is cleared when none
  remains; if it was not, the pointer is untouched.
\<close>

theorem C7_delete:
  "(i \<notin> id' ` set (getAll s) \<longrightarrow> delete i s = (False, s)) \<and>
   (i \<in> id' ` set (getAll s) \<longrightarrow>
      fst (delete i s) = True \<and>
      getAll (snd (delete i s)) = filter (\<lambda>k. id' k \<noteq> i) (getAll s) \<and>
      (distinct (map id' (getAll s)) \<longrightarrow>
         (\<exists>pre e post. getAll s = pre @ e # post \<and> id' e = i \<and>
            getAll (snd (delete i s)) = pre @ post)) \<and>
      (getActiveId s = Some i \<longrightarrow>
         getActiveId (snd (delete i s)) =
           (case getAll (snd (delete i s)) of [] \<Rightarrow> None | k # _ \<Rightarrow> Some (id' k))) \<and>
      (getActiveId s \<noteq> Some i \<longrightarrow> getActiveId (snd (delete i s)) = getActiveId s))"
proof (intro conjI impI)
  assume "i \<notin> id' ` set (getAll s)"
  then show "delete i s = (False, s)" by (rule delete_not_found)
next
  assume "i \<in> id' ` set (getAll s)"
  then show "fst (delete i s) = True" by (rule delete_found)
next
  assume "i \<in> id' ` set (getAll s)"
  then show "getAll (snd (delete i s)) = filter (\<lambda>k. id' k \<noteq> i) (getAll s)"
    by (rule delete_found)
next
  assume "i \<in> id' ` set (getAll s)" and "distinct (map id' (getAll s))"
  then show "\<exists>pre e post. getAll s = pre @ e # post \<and> id' e = i \<and>
            getAll (snd (delete i s)) = pre @ post"
    using filter_unique_id [of "getAll s" i] by (simp add: delete_found(2))
next
  assume "i \<in> id' ` set (getAll s)" and "getActiveId s = Some i"
  then show "getActiveId (snd (delete i s)) =
           (case getAll (snd (delete i s)) of [] \<Rightarrow> None | k # _ \<Rightarrow> Some (id' k))"
    by (simp add: delete_found(2,3))
next
  assume "i \<in> id' ` set (getAll s)" and "getActiveId s \<noteq> Some i"
  then show "getActiveId (snd (delete i s)) = getActiveId s"
    by (rule delete_found)
qed

theorem C7_delete_witness:
  "delete ''Z'' (storeOf [entryA, entryB, entryC] (Some ''A'')) =
     (False, storeOf [entryA, entryB, entryC] (Some ''A'')) \<and>
   fst (delete ''A'' (storeOf [entryA, entryB, entryC] (Some ''A''))) = True \<and>
   getAll (snd (delete ''A'' (storeOf [entryA, entryB, entryC] (Some ''A'')))) = [entryB, entryC] \<and>
   getActiveId (snd (delete ''A'' (storeOf [entryA, entryB, entryC] (Some ''A'')))) = Some ''B'' \<and>
   getActiveId (snd (delete ''A'' (storeOf [entryA] (Some ''A'')))) = None \<and>
   getActiveId (snd (delete ''B'' (storeOf [entryA, entryB, entryC] (Some ''A'')))) = Some ''A''"
  using C7_delete [of "''Z''" "storeOf [entryA, entryB, entryC] (Some ''A'')"]
        C7_delete [of "''A''" "storeOf [entryA, entryB, entryC] (Some ''A'')"]
        C7_delete [of "''A''" "storeOf [entryA] (Some ''A'')"]
        C7_delete [of "''B''" "storeOf [entryA, entryB, entryC] (Some ''A'')"]
  by (simp add: getAll_def getActiveId_def storeOf_def entryA_def entryB_def entryC_def)

subsection \<open>The active pointer never dangles\<close>

lemma active_valid_setActive: "active_valid s \<Longrightarrow> active_valid (snd (setActive i s))"
  by (auto simp: setActive_def Let_def active_valid_def split: option.splits)

lemma active_valid_add: "active_valid s \<Longrightarrow> active_valid (snd (add now rnd now' nm ky s))"
  by (auto simp: add_def Let_def active_valid_def setActive_def split: option.splits)

lemma findIndex_range: "findIndex P xs = - 1 \<or> (0 \<le> findIndex P xs \<and> findIndex P xs < int (length xs))"
  by (induction xs) (auto simp: Let_def)

lemma update_ids: "map id' (getAll (snd (update i nm ky s))) = map id' (getAll s)"
proof (cases "findIndex (\<lambda>k. id' k = i) (getAll s) = - 1")
  case True
  then show ?thesis by (simp add: update_def Let_def)
next
  case False
  with findIndex_range [of "\<lambda>k. id' k = i" "getAll s"]
  have "nat (findIndex (\<lambda>k. id' k = i) (getAll s)) < length (getAll s)" by auto
  with False show ?thesis
    by (simp add: update_def Let_def map_update list_update_same_conv)
qed

lemma update_activeId: "getActiveId (snd (update i nm ky s)) = getActiveId s"
  by (simp add: update_def Let_def)

lemma active_valid_ids:
  "active_valid s = (case getActiveId s of None \<Rightarrow> True | Some a \<Rightarrow> a \<in> set (map id' (getAll s)))"
  by (simp add: active_valid_def split: option.splits)

lemma active_valid_update: "active_valid s \<Longrightarrow> active_valid (snd (update i nm ky s))"
  by (simp only: active_valid_ids update_ids update_activeId)

lemma active_valid_delete:
  assumes "active_valid s"
  shows "active_valid (snd (delete i s))"
proof (cases "i \<in> id' ` set (getAll s)")
  case False
  with assms show ?thesis by (simp add: delete_not_found)
next
  case True
  show ?thesis
  proof (cases "getActiveId s = Some i")
    case active: True
    with True show ?thesis
      by (cases "filter (\<lambda>k. id' k \<noteq> i) (getAll s)")
         (simp_all add: active_valid_def delete_found(2,3))
  next
    case other: False
    with True assms show ?thesis
      by (auto simp: active_valid_def delete_found(2,4) split: option.splits)
  qed
qed

lemma active_valid_clearAll: "active_valid (clearAll s)"
  by (simp add: active_valid_def clearAll_def)

lemma active_valid_apply_op: "active_valid s \<Longrightarrow> active_valid (apply_op op s)"
  by (cases op)
     (simp_all add: active_valid_add active_valid_update active_valid_delete
        active_valid_setActive active_valid_clearAll)

lemma active_valid_run_ops: "active_valid s \<Longrightarrow> active_valid (run_ops ops s)"
  by (induction ops arbitrary: s) (simp_all add: active_valid_apply_op)

lemma active_valid_empty: "active_valid emptyStorage"
  by (simp add: active_valid_def emptyStorage_def getActiveId_def)

text \<open>
  C9. Whatever sequence of \<open>add\<close>, \<open>update\<close>, \<open>delete\<close>, \<open>setActive\<close> and
  \<open>clearAll\<close> is run from the empty store, after each of its operations (that is,
  after every prefix of the sequence) the active pointer is unset or is the id of an
  entry of the store.
\<close>

theorem C9_no_dangling_active: "active_valid (run_ops (take n ops) emptyStorage)"
  by (rule active_valid_run_ops [OF active_valid_empty])

subsection \<open>Round-robin rotation\<close>

lemma findIndex_first:
  "i < length xs \<Longrightarrow> P (xs ! i) \<Longrightarrow> (\<forall>j<i. \<not> P (xs ! j)) \<Longrightarrow> findIndex P xs = int i"
proof (induction xs arbitrary: i)
  case Nil
  then show ?case by simp
next
  case (Cons x xs)
  show ?case
  proof (cases i)
    case 0
    with Cons.prems show ?thesis by simp
  next
    case (Suc i')
    with Cons.prems have "\<not> P x" by auto
    moreover from Suc Cons.prems have "findIndex P xs = int i'"
      by (intro Cons.IH) auto
    ultimately show ?thesis using Suc by (simp add: Let_def)
  qed
qed

lemma findIndex_distinct:
  assumes "distinct (map f xs)" and "i < length xs"
  shows "findIndex (\<lambda>k. f k = f (xs ! i)) xs = int i"
proof (rule findIndex_first)
  show "i < length xs" by fact
  show "f (xs ! i) = f (xs ! i)" by simp
  show "\<forall>j<i. f (xs ! j) \<noteq> f (xs ! i)"
  proof (intro allI impI)
    fix j assume "j < i"
    with assms have "map f xs ! j \<noteq> map f xs ! i"
      by (simp add: nth_eq_iff_index_eq del: nth_map)
    with \<open>j < i\<close> assms(2) show "f (xs ! j) \<noteq> f (xs ! i)" by simp
  qed
qed

lemma tryRotateApiKey_next:
  assumes len: "2 \<le> length (getAll s)"
    and dist: "distinct (map id' (getAll s))"
    and i: "i < length (getAll s)"
    and act: "getActiveId s = Some (id' (getAll s ! i))"
  shows "tryRotateApiKey s =
           (True, s\<lparr>cyberforge_active_key_id :=
                      Some (id' (getAll s ! (Suc i mod length (getAll s))))\<rparr>)"
proof -
  let ?xs = "getAll s" and ?n = "Suc i mod length (getAll s)"
  have idx: "findIndex (\<lambda>k. id' k = id' (?xs ! i)) ?xs = int i"
    by (rule findIndex_distinct [OF dist i])
  have nxt: "nat ((int i + 1) mod int (length ?xs)) = ?n"
    by (simp add: nat_mod_distrib nat_add_distrib)
  have "0 < length ?xs" using len by linarith
  then have lt: "?n < length ?xs" by (rule mod_less_divisor)
  have "?n \<noteq> i" using len i by (auto simp: mod_Suc split: if_splits)
  with dist lt i have "map id' ?xs ! ?n \<noteq> map id' ?xs ! i"
    by (simp add: nth_eq_iff_index_eq del: nth_map)
  with lt i have ne: "id' (?xs ! ?n) \<noteq> id' (?xs ! i)" by simp
  have "id' (?xs ! ?n) \<in> id' ` set ?xs" using lt by simp
  then have "setActive (id' (?xs ! ?n)) s =
               (True, s\<lparr>cyberforge_active_key_id := Some (id' (?xs ! ?n))\<rparr>)"
    by (rule setActive_present)
  with len lt ne show ?thesis
    by (simp add: tryRotateApiKey_def Let_def idx nxt act)
qed

lemma rotations_closed:
  assumes "2 \<le> length (getAll s)"
    and "distinct (map id' (getAll s))"
    and "i < length (getAll s)"
    and "getActiveId s = Some (id' (getAll s ! i))"
  shows "rotations k s =
           map (\<lambda>j. (True, s\<lparr>cyberforge_active_key_id :=
                                Some (id' (getAll s ! ((i + j) mod length (getAll s))))\<rparr>))
               [1..<Suc k]"
  using assms
proof (induction k arbitrary: s i)
  case 0
  then show ?case by simp
next
  case (Suc k)
  let ?N = "length (getAll s)"
  let ?s1 = "s\<lparr>cyberforge_active_key_id := Some (id' (getAll s ! (Suc i mod ?N)))\<rparr>"
  have step: "tryRotateApiKey s = (True, ?s1)"
    using Suc.prems by (rule tryRotateApiKey_next)
  have "0 < ?N" using Suc.prems(1) by linarith
  then have lt: "Suc i mod ?N < ?N" by (rule mod_less_divisor)
  have ih: "rotations k ?s1 =
      map (\<lambda>j. (True, ?s1\<lparr>cyberforge_active_key_id :=
                 Some (id' (getAll ?s1 ! ((Suc i mod ?N + j) mod length (getAll ?s1))))\<rparr>))
          [1..<Suc k]"
    using Suc.prems lt by (intro Suc.IH) simp_all
  have shift: "(Suc i mod ?N + j) mod ?N = (i + Suc j) mod ?N" for j
    by (simp add: mod_add_left_eq)
  have "[1..<Suc (Suc k)] = 1 # map Suc [1..<Suc k]"
    by (simp add: upt_conv_Cons map_Suc_upt del: upt_Suc)
  then show ?case
    by (simp add: step ih shift comp_def del: upt_Suc)
qed


lemma cyclic_order:
  assumes "i < length xs"
  shows "map (\<lambda>j. xs ! ((i + j) mod length xs)) [1..<Suc (length xs)] =
           drop (Suc i) xs @ take (Suc i) xs"
proof (rule nth_equalityI)
  show "length (map (\<lambda>j. xs ! ((i + j) mod length xs)) [1..<Suc (length xs)]) =
          length (drop (Suc i) xs @ take (Suc i) xs)"
    using assms by (simp del: upt_Suc)
next
  fix j
  assume "j < length (map (\<lambda>j. xs ! ((i + j) mod length xs)) [1..<Suc (length xs)])"
  then have j: "j < length xs" by (simp del: upt_Suc)
  then have nth: "map (\<lambda>j. xs ! ((i + j) mod length xs)) [1..<Suc (length xs)] ! j =
                    xs ! ((i + (1 + j)) mod length xs)"
    by (simp del: upt_Suc)
  show "map (\<lambda>j. xs ! ((i + j) mod length xs)) [1..<Suc (length xs)] ! j =
          (drop (Suc i) xs @ take (Suc i) xs) ! j"
  proof (cases "j < length xs - Suc i")
    case True
    then have "(i + (1 + j)) mod length xs = Suc i + j" by simp
    moreover from True have "(drop (Suc i) xs @ take (Suc i) xs) ! j = xs ! (Suc i + j)"
      by (simp add: nth_append)
    ultimately show ?thesis using nth by simp
  next
    case False
    with assms j have ge: "length xs \<le> i + (1 + j)" by linarith
    then have "(i + (1 + j)) mod length xs = (i + (1 + j) - length xs) mod length xs"
      by (rule le_mod_geq)
    also have "\<dots> = i + (1 + j) - length xs"
      using assms j by (intro mod_less) linarith
    also have "\<dots> = j - (length xs - Suc i)"
      using ge assms by linarith
    finally have m: "(i + (1 + j)) mod length xs = j - (length xs - Suc i)" .
    from False assms j
    have "(drop (Suc i) xs @ take (Suc i) xs) ! j = xs ! (j - (length xs - Suc i))"
      by (simp add: nth_append)
    with m nth show ?thesis by simp
  qed
qed



text \<open>
  C4. In a store of \<open>N \<ge> 2\<close> entries with unique ids (the invariant of the data
  model) whose active id is that of the entry at position \<open>i\<close>, each of \<open>N\<close>
  successive calls of the rotator returns true and leaves the entries alone. The active
  ids after the calls are, in order, the ids of the entries behind position \<open>i\<close>, then
  of those before it, then the initial one: every other entry once, in cyclic
  insertion order, and the initial value again after the \<open>N\<close>-th call.
\<close>

theorem C4_round_robin:
  assumes "2 \<le> length (getAll s)"
    and "distinct (map id' (getAll s))"
    and "i < length (getAll s)"
    and "getActiveId s = Some (id' (getAll s ! i))"
  shows "map fst (rotations (length (getAll s)) s) = replicate (length (getAll s)) True \<and>
         map (getActiveId \<circ> snd) (rotations (length (getAll s)) s) =
           map Some (drop (Suc i) (map id' (getAll s)) @ take i (map id' (getAll s))
                     @ [id' (getAll s ! i)]) \<and>
         distinct (drop (Suc i) (map id' (getAll s)) @ take i (map id' (getAll s))) \<and>
         set (drop (Suc i) (map id' (getAll s)) @ take i (map id' (getAll s))) =
           id' ` set (getAll s) - {id' (getAll s ! i)} \<and>
         (\<forall>r \<in> set (rotations (length (getAll s)) s). getAll (snd r) = getAll s) \<and>
         getActiveId (snd (last (rotations (length (getAll s)) s))) = getActiveId s"
proof -
  let ?xs = "getAll s" and ?N = "length (getAll s)"
  let ?ids = "map id' (getAll s)"
  let ?f = "\<lambda>j. (True, s\<lparr>cyberforge_active_key_id := Some (id' (?xs ! ((i + j) mod ?N)))\<rparr>)"
  have closed: "rotations ?N s = map ?f [1..<Suc ?N]"
    using assms by (rule rotations_closed)
  have c1: "map fst (rotations ?N s) = replicate ?N True"
    by (simp add: closed comp_def map_replicate_const del: upt_Suc)
  have "map (getActiveId \<circ> snd) (rotations ?N s) =
          map Some (map id' (map (\<lambda>j. ?xs ! ((i + j) mod ?N)) [1..<Suc ?N]))"
    by (simp add: closed comp_def del: upt_Suc)
  also have "\<dots> = map Some (map id' (drop (Suc i) ?xs @ take (Suc i) ?xs))"
    by (simp only: cyclic_order [OF assms(3)])
  also have "\<dots> = map Some (drop (Suc i) ?ids @ take i ?ids @ [id' (?xs ! i)])"
    using assms(3) by (simp add: take_Suc_conv_app_nth drop_map take_map)
  finally have c2: "map (getActiveId \<circ> snd) (rotations ?N s) =
      map Some (drop (Suc i) ?ids @ take i ?ids @ [id' (?xs ! i)])" .
  have split: "?ids = take i ?ids @ id' (?xs ! i) # drop (Suc i) ?ids"
    using assms(3) id_take_nth_drop [of i ?ids] by simp
  have "distinct (take i ?ids @ id' (?xs ! i) # drop (Suc i) ?ids)"
    using assms(2) split by simp
  then have c3: "distinct (drop (Suc i) ?ids @ take i ?ids)" by auto
  have "set ?ids = set (take i ?ids @ id' (?xs ! i) # drop (Suc i) ?ids)"
    using split by simp
  moreover have "id' (?xs ! i) \<notin> set (take i ?ids) \<union> set (drop (Suc i) ?ids)"
    using \<open>distinct (take i ?ids @ id' (?xs ! i) # drop (Suc i) ?ids)\<close> by auto
  ultimately have c4: "set (drop (Suc i) ?ids @ take i ?ids) = id' ` set ?xs - {id' (?xs ! i)}"
    by auto
  have c5: "\<forall>r \<in> set (rotations ?N s). getAll (snd r) = getAll s"
    by (auto simp: closed simp del: upt_Suc)
  have "[1..<Suc ?N] \<noteq> []" using assms(1) by simp
  then have "last (map ?f [1..<Suc ?N]) = ?f (last [1..<Suc ?N])"
    by (rule last_map)
  then have "last (rotations ?N s) = ?f (last [1..<Suc ?N])"
    by (simp only: closed)
  also have "last [1..<Suc ?N] = ?N" using assms(1) by simp
  finally have c6: "getActiveId (snd (last (rotations ?N s))) = getActiveId s"
    using assms(3,4) by simp
  from c1 c2 c3 c4 c5 c6 show ?thesis by blast
qed

theorem C4_round_robin_witness:
  "map fst (rotations 3 (storeOf [entryA, entryB, entryC] (Some ''B''))) = [True, True, True] \<and>
   map (getActiveId \<circ> snd) (rotations 3 (storeOf [entryA, entryB, entryC] (Some ''B''))) =
     [Some ''C'', Some ''A'', Some ''B'']"
  using C4_round_robin [of "storeOf [entryA, entryB, entryC] (Some ''B'')" 1]
  by (simp add: getAll_def getActiveId_def storeOf_def entryA_def entryB_def entryC_def
        numeral_3_eq_3)

section \<open>Properties of the classifier\<close>










lemma classifier_examples:
  "isRateLimitError (Error ''got status: 429'')"
  "isRateLimitError (Error ''You exceeded your current quota'')"
  "isRateLimitError (Thrown None ''RESOURCE_EXHAUSTED'')"
  "\<not> isRateLimitError (Error ''Quota exceeded'')"
  "\<not> isRateLimitError (Error ''network unreachable'')"
  by (simp_all add: isRateLimitError_def Error_def)

lemma noKeyError_not_rate_limit: "\<not> isRateLimitError noKeyError"
  by (simp add: isRateLimitError_def Error_def noKeyError_def)

section \<open>Properties of the executor\<close>

subsection \<open>One iteration of the loop\<close>

lemma emit_simp [simp]: "emit evs (tr, res, s) = (evs @ tr, res, s)"
  by (simp add: emit_def)

lemma attempts_done:
  "\<not> attempt < maxRetries \<Longrightarrow>
   attempts apiCall maxRetries baseDelay attempt lastError s = ([], Inl lastError, s)"
  by (subst attempts.simps) simp

lemma attempts_success:
  "attempt < maxRetries \<Longrightarrow> snd (apiCall attempt s) = Inr v \<Longrightarrow>
   attempts apiCall maxRetries baseDelay attempt lastError s =
     (tried apiCall baseDelay attempt s, Inr v, s)"
  by (subst attempts.simps) (simp add: tried_def)

lemma attempts_fail_last:
  "attempt < maxRetries \<Longrightarrow> snd (apiCall attempt s) = Inl e \<Longrightarrow> attempt = maxRetries - 1 \<Longrightarrow>
   attempts apiCall maxRetries baseDelay attempt lastError s =
     (tried apiCall baseDelay attempt s, Inl e, s)"
  by (subst attempts.simps) (simp add: tried_def)

lemma attempts_fail_other:
  assumes "attempt < maxRetries - 1"
    and "snd (apiCall attempt s) = Inl e"
    and "\<not> isRateLimitError e"
  shows "attempts apiCall maxRetries baseDelay attempt lastError s =
     emit (tried apiCall baseDelay attempt s)
       (attempts apiCall maxRetries baseDelay (attempt + 1) e s)"
proof -
  from assms(1) have "attempt < maxRetries" and "attempt \<noteq> maxRetries - 1" by arith+
  with assms show ?thesis
    by (subst attempts.simps) (simp add: tried_def)
qed

lemma attempts_fail_rotated:
  assumes "attempt < maxRetries - 1"
    and "snd (apiCall attempt s) = Inl e"
    and "isRateLimitError e"
    and "tryRotateApiKey s = (True, s')"
  shows "attempts apiCall maxRetries baseDelay attempt lastError s =
     emit (tried apiCall baseDelay attempt s @ [Rotated True])
       (attempts apiCall maxRetries baseDelay (attempt + 1) e s')"
proof -
  from assms(1) have "attempt < maxRetries" and "attempt \<noteq> maxRetries - 1" by arith+
  with assms show ?thesis
    by (subst attempts.simps) (simp add: tried_def)
qed

lemma attempts_fail_stuck:
  assumes "attempt < maxRetries - 1"
    and "snd (apiCall attempt s) = Inl e"
    and "isRateLimitError e"
    and "tryRotateApiKey s = (False, s')"
  shows "attempts apiCall maxRetries baseDelay attempt lastError s =
     emit (tried apiCall baseDelay attempt s @ [Rotated False, Sleep (5000 * (attempt + 1))])
       (attempts apiCall maxRetries baseDelay (attempt + 1) e s')"
proof -
  from assms(1) have "attempt < maxRetries" and "attempt \<noteq> maxRetries - 1" by arith+
  with assms show ?thesis
    by (subst attempts.simps) (simp add: tried_def)
qed


subsection \<open>Reading a trace\<close>

lemma waits_Remote [simp]: "waits acc (map Remote ks @ es) = waits acc es"
  by (induction ks) simp_all

lemma invocations_Remote [simp]: "invocations (map Remote ks @ es) = invocations es"
  by (induction ks) simp_all

lemma rotationResults_Remote [simp]:
  "rotationResults (map Remote ks @ es) = rotationResults es"
  by (induction ks) simp_all

lemma remoteRequests_Remote [simp]:
  "remoteRequests (map Remote ks @ es) = ks @ remoteRequests es"
  by (induction ks) simp_all

lemma waits_tried [simp]:
  "waits acc (tried apiCall baseDelay k s @ es) =
     (acc + (if k > 0 then baseDelay * 2 ^ (k - 1) else 0)) # waits 0 es"
  by (simp add: tried_def)

lemma invocations_tried [simp]:
  "invocations (tried apiCall baseDelay k s @ es) = k # invocations es"
  by (simp add: tried_def)

lemma rotationResults_tried [simp]:
  "rotationResults (tried apiCall baseDelay k s @ es) = rotationResults es"
  by (simp add: tried_def)

lemma remoteRequests_tried [simp]:
  "remoteRequests (tried apiCall baseDelay k s @ es) = fst (apiCall k s) @ remoteRequests es"
  by (simp add: tried_def)

subsection \<open>Every attempt fails with an error that is not a rate limit\<close>

lemma attempts_other_errors:
  assumes "\<forall>k. attempt \<le> k \<and> k < maxRetries \<longrightarrow>
             (\<exists>e. snd (apiCall k s) = Inl e \<and> \<not> isRateLimitError e)"
    and "attempt < maxRetries"
  shows "attempts apiCall maxRetries baseDelay attempt lastError s =
           (concat (map (\<lambda>k. tried apiCall baseDelay k s) [attempt..<maxRetries]),
            snd (apiCall (maxRetries - 1) s), s)"
  using assms
proof (induction "maxRetries - attempt" arbitrary: attempt lastError)
  case 0
  then show ?case by simp
next
  case (Suc n)
  from Suc.prems obtain e where e: "snd (apiCall attempt s) = Inl e" "\<not> isRateLimitError e"
    by blast
  have upt: "[attempt..<maxRetries] = attempt # [Suc attempt..<maxRetries]"
    using Suc.prems(2) by (rule upt_conv_Cons)
  show ?case
  proof (cases "attempt = maxRetries - 1")
    case True
    with Suc.prems(2) have "[Suc attempt..<maxRetries] = []" by simp
    with upt have "[attempt..<maxRetries] = [attempt]" by simp
    then have "concat (map (\<lambda>k. tried apiCall baseDelay k s) [attempt..<maxRetries]) =
                 tried apiCall baseDelay attempt s"
      by simp
    moreover have "snd (apiCall (maxRetries - 1) s) = Inl e" using True e by simp
    moreover have "attempts apiCall maxRetries baseDelay attempt lastError s =
                     (tried apiCall baseDelay attempt s, Inl e, s)"
      using Suc.prems(2) e(1) True by (rule attempts_fail_last)
    ultimately show ?thesis by simp
  next
    case False
    with Suc.prems(2) have lt: "attempt < maxRetries - 1" by arith
    have "n = maxRetries - (attempt + 1)" using Suc.hyps(2) by arith
    moreover have "\<forall>k. attempt + 1 \<le> k \<and> k < maxRetries \<longrightarrow>
             (\<exists>e. snd (apiCall k s) = Inl e \<and> \<not> isRateLimitError e)"
      using Suc.prems(1) by simp
    moreover have "attempt + 1 < maxRetries" using lt by arith
    ultimately have "attempts apiCall maxRetries baseDelay (attempt + 1) e s =
           (concat (map (\<lambda>k. tried apiCall baseDelay k s) [attempt + 1..<maxRetries]),
            snd (apiCall (maxRetries - 1) s), s)"
      by (rule Suc.hyps(1))
    moreover have "attempts apiCall maxRetries baseDelay attempt lastError s =
                     emit (tried apiCall baseDelay attempt s)
                       (attempts apiCall maxRetries baseDelay (attempt + 1) e s)"
      using lt e by (rule attempts_fail_other)
    ultimately show ?thesis by (simp add: upt)
  qed
qed

lemma waits_all_tried:
  "waits 0 (concat (map (\<lambda>k. tried apiCall baseDelay k s) ks)) =
     map (\<lambda>k. if k > 0 then baseDelay * 2 ^ (k - 1) else 0) ks"
  by (induction ks) simp_all

lemma invocations_all_tried:
  "invocations (concat (map (\<lambda>k. tried apiCall baseDelay k s) ks)) = ks"
  by (induction ks) simp_all

lemma rotationResults_all_tried:
  "rotationResults (concat (map (\<lambda>k. tried apiCall baseDelay k s) ks)) = []"
  by (induction ks) simp_all

lemma remoteRequests_all_tried:
  "remoteRequests (concat (map (\<lambda>k. tried apiCall baseDelay k s) ks)) =
     concat (map (\<lambda>k. fst (apiCall k s)) ks)"
  by (induction ks) simp_all

lemma run_simps [simp]:
  "run_trace (tr, res, s) = tr" "run_result (tr, res, s) = res" "run_store (tr, res, s) = s"
  by (simp_all add: run_trace_def run_result_def run_store_def)

lemma one_based_delays:
  "map (\<lambda>k. if k > 0 then f (k - 1) else (0::nat)) [0..<m] =
   map (\<lambda>n. if n = 1 then 0 else f (n - 2)) [1..<Suc m]"
proof -
  have "map (\<lambda>n. if n = 1 then 0 else f (n - 2)) [Suc 0..<Suc m] =
        map ((\<lambda>n. if n = 1 then 0 else f (n - 2)) \<circ> Suc) [0..<m]"
    by (simp only: map_Suc_upt [symmetric] map_map)
  also have "\<dots> = map (\<lambda>k. if k > 0 then f (k - 1) else 0) [0..<m]"
    by (rule map_cong) (auto simp: numeral_2_eq_2)
  finally show ?thesis by simp
qed

text \<open>
  C3. When every attempt fails with an error that the classifier does not take for a
  rate limit, the operation is invoked \<open>maxAttempts\<close> times (the attempts of index
  \<open>0\<close> to \<open>maxAttempts - 1\<close>, in order), nothing is suspended before the first
  invocation, exactly \<open>baseDelay * 2^(n-2)\<close> before the \<open>n\<close>-th for \<open>n > 1\<close>, the rotator
  is never called, and the run ends by raising: the error of the last attempt.
\<close>

theorem C3_backoff_schedule:
  assumes "\<forall>k<maxAttempts. \<exists>e. snd (apiCall k s) = Inl e \<and> \<not> isRateLimitError e"
  shows "invocations (run_trace (executeWithRetry apiCall maxAttempts baseDelay s)) =
           [0..<maxAttempts] \<and>
         waits 0 (run_trace (executeWithRetry apiCall maxAttempts baseDelay s)) =
           map (\<lambda>n. if n = 1 then 0 else baseDelay * 2 ^ (n - 2)) [1..<Suc maxAttempts] \<and>
         rotationResults (run_trace (executeWithRetry apiCall maxAttempts baseDelay s)) = [] \<and>
         (\<exists>e. run_result (executeWithRetry apiCall maxAttempts baseDelay s) = Inl e) \<and>
         (0 < maxAttempts \<longrightarrow>
            run_result (executeWithRetry apiCall maxAttempts baseDelay s) =
              snd (apiCall (maxAttempts - 1) s)) \<and>
         run_store (executeWithRetry apiCall maxAttempts baseDelay s) = s"
proof (cases "0 < maxAttempts")
  case False
  then show ?thesis by (simp add: executeWithRetry_def attempts_done)
next
  case True
  from assms have "\<forall>k. 0 \<le> k \<and> k < maxAttempts \<longrightarrow>
                     (\<exists>e. snd (apiCall k s) = Inl e \<and> \<not> isRateLimitError e)"
    by simp
  then have run: "executeWithRetry apiCall maxAttempts baseDelay s =
      (concat (map (\<lambda>k. tried apiCall baseDelay k s) [0..<maxAttempts]),
       snd (apiCall (maxAttempts - 1) s), s)"
    unfolding executeWithRetry_def using True by (rule attempts_other_errors)
  from assms True obtain e where "snd (apiCall (maxAttempts - 1) s) = Inl e"
    by (metis diff_less zero_less_one)
  then show ?thesis
    by (simp add: run waits_all_tried invocations_all_tried rotationResults_all_tried
          one_based_delays [of "\<lambda>j. baseDelay * 2 ^ j"] del: upt_Suc)
qed

theorem C3_backoff_schedule_witness:
  "invocations (run_trace (executeWithRetry alwaysUnreachable 3 3000 (storeOf [entryA] (Some ''A''))))
     = [0, 1, 2] \<and>
   waits 0 (run_trace (executeWithRetry alwaysUnreachable 3 3000 (storeOf [entryA] (Some ''A''))))
     = [0, 3000, 6000] \<and>
   run_result (executeWithRetry alwaysUnreachable 3 3000 (storeOf [entryA] (Some ''A'')))
     = Inl (Error ''network unreachable'')"
  using C3_backoff_schedule [of 3 alwaysUnreachable "storeOf [entryA] (Some ''A'')" 3000]
  by (simp add: alwaysUnreachable_def isRateLimitError_def Error_def upt_conv_Cons numeral_3_eq_3)

subsection \<open>Every attempt is rate-limited and there is nothing to rotate to\<close>

lemma attempts_rate_limited_stuck:
  assumes "length (getAll s) \<le> 1"
    and "\<forall>k. attempt \<le> k \<and> k < maxRetries \<longrightarrow>
           (\<exists>e. snd (apiCall k s) = Inl e \<and> isRateLimitError e)"
    and "attempt < maxRetries"
  shows "attempts apiCall maxRetries baseDelay attempt lastError s =
           (tried apiCall baseDelay attempt s @
            concat (map (\<lambda>k. Rotated False # Sleep (5000 * k) # tried apiCall baseDelay k s)
                        [Suc attempt..<maxRetries]),
            snd (apiCall (maxRetries - 1) s), s)"
  using assms(2,3)
proof (induction "maxRetries - attempt" arbitrary: attempt lastError)
  case 0
  then show ?case by simp
next
  case (Suc n)
  from Suc.prems obtain e where e: "snd (apiCall attempt s) = Inl e" "isRateLimitError e"
    by blast
  have rot: "tryRotateApiKey s = (False, s)"
    using assms(1) by (rule tryRotateApiKey_few)
  show ?case
  proof (cases "attempt = maxRetries - 1")
    case True
    with Suc.prems(2) have "[Suc attempt..<maxRetries] = []" by simp
    then have "concat (map (\<lambda>k. Rotated False # Sleep (5000 * k) # tried apiCall baseDelay k s)
                        [Suc attempt..<maxRetries]) = []"
      by (simp only: list.map concat.simps)
    moreover have "snd (apiCall (maxRetries - 1) s) = Inl e" using True e by simp
    moreover have "attempts apiCall maxRetries baseDelay attempt lastError s =
                     (tried apiCall baseDelay attempt s, Inl e, s)"
      using Suc.prems(2) e(1) True by (rule attempts_fail_last)
    ultimately show ?thesis by simp
  next
    case False
    with Suc.prems(2) have lt: "attempt < maxRetries - 1" by arith
    then have lt': "Suc attempt < maxRetries" by arith
    have upt: "[Suc attempt..<maxRetries] = Suc attempt # [Suc (Suc attempt)..<maxRetries]"
      using lt' by (rule upt_conv_Cons)
    have "n = maxRetries - (attempt + 1)" using Suc.hyps(2) by arith
    moreover have "\<forall>k. attempt + 1 \<le> k \<and> k < maxRetries \<longrightarrow>
             (\<exists>e. snd (apiCall k s) = Inl e \<and> isRateLimitError e)"
      using Suc.prems(1) by simp
    moreover have "attempt + 1 < maxRetries" using lt by arith
    ultimately have "attempts apiCall maxRetries baseDelay (attempt + 1) e s =
           (tried apiCall baseDelay (attempt + 1) s @
            concat (map (\<lambda>k. Rotated False # Sleep (5000 * k) # tried apiCall baseDelay k s)
                        [Suc (attempt + 1)..<maxRetries]),
            snd (apiCall (maxRetries - 1) s), s)"
      by (rule Suc.hyps(1))
    moreover have "attempts apiCall maxRetries baseDelay attempt lastError s =
                     emit (tried apiCall baseDelay attempt s
                             @ [Rotated False, Sleep (5000 * (attempt + 1))])
                       (attempts apiCall maxRetries baseDelay (attempt + 1) e s)"
      using lt e rot by (rule attempts_fail_stuck)
    ultimately show ?thesis by (simp add: upt)
  qed
qed

lemma waits_all_stuck:
  "waits 0 (concat (map (\<lambda>k. Rotated False # Sleep (5000 * k) # tried apiCall baseDelay k s) ks)) =
     map (\<lambda>k. 5000 * k + (if k > 0 then baseDelay * 2 ^ (k - 1) else 0)) ks"
  by (induction ks) simp_all

lemma invocations_all_stuck:
  "invocations (concat (map (\<lambda>k. Rotated False # Sleep (5000 * k) # tried apiCall baseDelay k s) ks))
     = ks"
  by (induction ks) simp_all

lemma rotationResults_all_stuck:
  "rotationResults
     (concat (map (\<lambda>k. Rotated False # Sleep (5000 * k) # tried apiCall baseDelay k s) ks)) =
   replicate (length ks) False"
  by (induction ks) simp_all


lemma one_based_stuck:
  assumes "0 < m"
  shows "0 # map (\<lambda>k. 5000 * k + (if k > 0 then f (k - 1) else (0::nat))) [Suc 0..<m] =
         map (\<lambda>n. if n = 1 then 0 else f (n - 2) + 5000 * (n - 1)) [1..<Suc m]"
proof -
  let ?g = "\<lambda>n. if n = 1 then 0 else f (n - 2) + 5000 * (n - 1)"
  have "map ?g [Suc 0..<Suc m] = map (?g \<circ> Suc) [0..<m]"
    by (simp only: map_Suc_upt [symmetric] map_map)
  also have "[0..<m] = 0 # [Suc 0..<m]" using assms by (rule upt_conv_Cons)
  also have "map (?g \<circ> Suc) (0 # [Suc 0..<m]) = 0 # map (?g \<circ> Suc) [Suc 0..<m]" by simp
  also have "map (?g \<circ> Suc) [Suc 0..<m] =
             map (\<lambda>k. 5000 * k + (if k > 0 then f (k - 1) else 0)) [Suc 0..<m]"
    by (rule map_cong) (auto simp: numeral_2_eq_2)
  finally show ?thesis by simp
qed

lemma stuck_run:
  assumes "length (getAll s) = 1"
    and "\<forall>k<maxAttempts. \<exists>e. snd (apiCall k s) = Inl e \<and> isRateLimitError e"
  shows "rotationResults (run_trace (executeWithRetry apiCall maxAttempts baseDelay s)) =
           replicate (maxAttempts - 1) False \<and>
         invocations (run_trace (executeWithRetry apiCall maxAttempts baseDelay s)) =
           [0..<maxAttempts] \<and>
         waits 0 (run_trace (executeWithRetry apiCall maxAttempts baseDelay s)) =
           map (\<lambda>n. if n = 1 then 0 else baseDelay * 2 ^ (n - 2) + 5000 * (n - 1))
               [1..<Suc maxAttempts] \<and>
         (\<exists>e. run_result (executeWithRetry apiCall maxAttempts baseDelay s) = Inl e) \<and>
         run_store (executeWithRetry apiCall maxAttempts baseDelay s) = s"
proof (cases "0 < maxAttempts")
  case False
  then show ?thesis by (simp add: executeWithRetry_def attempts_done)
next
  case True
  have few: "length (getAll s) \<le> 1" using assms(1) by simp
  from assms(2) have "\<forall>k. 0 \<le> k \<and> k < maxAttempts \<longrightarrow>
                     (\<exists>e. snd (apiCall k s) = Inl e \<and> isRateLimitError e)"
    by simp
  with few have run: "executeWithRetry apiCall maxAttempts baseDelay s =
      (tried apiCall baseDelay 0 s @
       concat (map (\<lambda>k. Rotated False # Sleep (5000 * k) # tried apiCall baseDelay k s)
                   [Suc 0..<maxAttempts]),
       snd (apiCall (maxAttempts - 1) s), s)"
    unfolding executeWithRetry_def using True by (rule attempts_rate_limited_stuck)
  from assms(2) True obtain e where e: "snd (apiCall (maxAttempts - 1) s) = Inl e"
    by (metis diff_less zero_less_one)
  have "[0..<maxAttempts] = 0 # [Suc 0..<maxAttempts]" using True by (rule upt_conv_Cons)
  then have c2: "invocations (run_trace (executeWithRetry apiCall maxAttempts baseDelay s)) =
           [0..<maxAttempts]"
    by (simp add: run invocations_all_stuck del: upt_Suc)
  have c1: "rotationResults (run_trace (executeWithRetry apiCall maxAttempts baseDelay s)) =
           replicate (maxAttempts - 1) False"
    by (simp add: run rotationResults_all_stuck del: upt_Suc)
  have "waits 0 (run_trace (executeWithRetry apiCall maxAttempts baseDelay s)) =
          0 # map (\<lambda>k. 5000 * k + (if k > 0 then baseDelay * 2 ^ (k - 1) else 0))
                  [Suc 0..<maxAttempts]"
    by (simp add: run waits_all_stuck del: upt_Suc)
  also have "\<dots> = map (\<lambda>n. if n = 1 then 0 else baseDelay * 2 ^ (n - 2) + 5000 * (n - 1))
                        [1..<Suc maxAttempts]"
    by (rule one_based_stuck [OF True, of "\<lambda>j. baseDelay * 2 ^ j"])
  finally have c3: "waits 0 (run_trace (executeWithRetry apiCall maxAttempts baseDelay s)) =
           map (\<lambda>n. if n = 1 then 0 else baseDelay * 2 ^ (n - 2) + 5000 * (n - 1))
               [1..<Suc maxAttempts]" .
  have c4: "\<exists>e. run_result (executeWithRetry apiCall maxAttempts baseDelay s) = Inl e"
    using e by (simp add: run)
  have c5: "run_store (executeWithRetry apiCall maxAttempts baseDelay s) = s"
    by (simp add: run)
  from c1 c2 c3 c4 c5 show ?thesis by blast
qed

text \<open>
  C2, as the code has it. With a single credential in the store and every attempt
  failing with a rate-limit error, the rotator is called after each attempt but the
  last and returns false each time, and the time suspended between attempt \<open>n - 1\<close> and
  attempt \<open>n\<close> is \<open>baseDelay * 2^(n-2) + 5000 * (n - 1)\<close> for \<open>n\<close> from 2 to
  \<open>maxAttempts\<close>: the cooldown is \<open>5000\<close> times the number of the attempt that failed,
  not of the one that follows. The run ends by raising.
\<close>

theorem C2_single_credential_delays:
  assumes "length (getAll s) = 1"
    and "\<forall>k<maxAttempts. \<exists>e. snd (apiCall k s) = Inl e \<and> isRateLimitError e"
  shows "rotationResults (run_trace (executeWithRetry apiCall maxAttempts baseDelay s)) =
           replicate (maxAttempts - 1) False \<and>
         invocations (run_trace (executeWithRetry apiCall maxAttempts baseDelay s)) =
           [0..<maxAttempts] \<and>
         waits 0 (run_trace (executeWithRetry apiCall maxAttempts baseDelay s)) =
           map (\<lambda>n. if n = 1 then 0 else baseDelay * 2 ^ (n - 2) + 5000 * (n - 1))
               [1..<Suc maxAttempts] \<and>
         (\<exists>e. run_result (executeWithRetry apiCall maxAttempts baseDelay s) = Inl e) \<and>
         run_store (executeWithRetry apiCall maxAttempts baseDelay s) = s"
  using assms by (rule stuck_run)

theorem C2_single_credential_delays_witness:
  "rotationResults (run_trace (executeWithRetry alwaysRateLimited 3 3000 (storeOf [entryA] (Some ''A''))))
     = [False, False] \<and>
   waits 0 (run_trace (executeWithRetry alwaysRateLimited 3 3000 (storeOf [entryA] (Some ''A''))))
     = [0, 8000, 16000]"
  using C2_single_credential_delays [of "storeOf [entryA] (Some ''A'')" 3 alwaysRateLimited 3000]
  by (simp add: alwaysRateLimited_def isRateLimitError_def Error_def upt_conv_Cons
        numeral_3_eq_3 getAll_def storeOf_def)

theorem C2_claimed_delay_counterexample:
  "length (getAll (storeOf [entryA] (Some ''A''))) = 1 \<and>
   isRateLimitError (Error ''429 Too Many Requests'') \<and>
   waits 0 (run_trace (executeWithRetry alwaysRateLimited 3 3000 (storeOf [entryA] (Some ''A''))))
     ! (2 - 1) = 8000 \<and>
   (8000::nat) \<noteq> 3000 * 2 ^ (2 - 2) + 5000 * 2"
  using stuck_run [of "storeOf [entryA] (Some ''A'')" 3 alwaysRateLimited 3000]
  by (simp add: alwaysRateLimited_def isRateLimitError_def Error_def upt_conv_Cons
        numeral_3_eq_3 getAll_def storeOf_def)

subsection \<open>How a run ends\<close>

lemma run_emit [simp]:
  "run_trace (emit evs r) = evs @ run_trace r"
  "run_result (emit evs r) = run_result r"
  "run_store (emit evs r) = run_store r"
  by (cases r; simp)+

lemma invocations_tried_only [simp]: "invocations (tried apiCall baseDelay k s) = [k]"
  using invocations_tried [of apiCall baseDelay k s "[]"] by simp

lemma attempts_outcome:
  assumes "attempt < maxRetries"
  shows "\<exists>k. attempt \<le> k \<and> k < maxRetries \<and>
           invocations (run_trace (attempts apiCall maxRetries baseDelay attempt lastError s)) =
             [attempt..<Suc k] \<and>
           run_result (attempts apiCall maxRetries baseDelay attempt lastError s) =
             snd (apiCall k (run_store (attempts apiCall maxRetries baseDelay attempt lastError s))) \<and>
           (k < maxRetries - 1 \<longrightarrow>
              (\<exists>v. run_result (attempts apiCall maxRetries baseDelay attempt lastError s) = Inr v))"
  using assms
proof (induction "maxRetries - attempt" arbitrary: attempt lastError s)
  case 0
  then show ?case by simp
next
  case (Suc n)
  let ?R = "attempts apiCall maxRetries baseDelay attempt lastError s"
  show ?case
  proof (cases "snd (apiCall attempt s)")
    case (Inr v)
    with Suc.prems have "?R = (tried apiCall baseDelay attempt s, Inr v, s)"
      by (simp add: attempts_success)
    with Inr Suc.prems show ?thesis
      by (intro exI [of _ attempt]) simp
  next
    case (Inl e)
    show ?thesis
    proof (cases "attempt = maxRetries - 1")
      case True
      have "?R = (tried apiCall baseDelay attempt s, Inl e, s)"
        using Suc.prems Inl True by (rule attempts_fail_last)
      moreover have "\<not> attempt < maxRetries - 1" using True by simp
      ultimately show ?thesis using Inl Suc.prems
        by (intro exI [of _ attempt]) simp
    next
      case False
      with Suc.prems have lt: "attempt < maxRetries - 1" by arith
      have n: "n = maxRetries - (attempt + 1)" using Suc.hyps(2) by arith
      have lt': "attempt + 1 < maxRetries" using lt by arith
      obtain evs s1 where step: "?R = emit (tried apiCall baseDelay attempt s @ evs)
                   (attempts apiCall maxRetries baseDelay (attempt + 1) e s1)"
        and evs: "invocations evs = []"
      proof (cases "isRateLimitError e")
        case False
        have "?R = emit (tried apiCall baseDelay attempt s)
                     (attempts apiCall maxRetries baseDelay (attempt + 1) e s)"
          using lt Inl False by (rule attempts_fail_other)
        then show ?thesis using that [of "[]" s] by simp
      next
        case True
        obtain rotated s1 where rot: "tryRotateApiKey s = (rotated, s1)"
          by (cases "tryRotateApiKey s")
        show ?thesis
        proof (cases rotated)
          case True
          with rot have "tryRotateApiKey s = (True, s1)" by simp
          with lt Inl \<open>isRateLimitError e\<close>
          have "?R = emit (tried apiCall baseDelay attempt s @ [Rotated True])
                       (attempts apiCall maxRetries baseDelay (attempt + 1) e s1)"
            by (rule attempts_fail_rotated)
          then show ?thesis using that [of "[Rotated True]" s1] by simp
        next
          case False
          with rot have "tryRotateApiKey s = (False, s1)" by simp
          with lt Inl \<open>isRateLimitError e\<close>
          have "?R = emit (tried apiCall baseDelay attempt s
                             @ [Rotated False, Sleep (5000 * (attempt + 1))])
                       (attempts apiCall maxRetries baseDelay (attempt + 1) e s1)"
            by (rule attempts_fail_stuck)
          then show ?thesis
            using that [of "[Rotated False, Sleep (5000 * (attempt + 1))]" s1] by simp
        qed
      qed
      let ?R' = "attempts apiCall maxRetries baseDelay (attempt + 1) e s1"
      from Suc.hyps(1) [OF n lt', of e s1]
      obtain k where k: "attempt + 1 \<le> k" "k < maxRetries"
        "invocations (run_trace ?R') = [attempt + 1..<Suc k]"
        "run_result ?R' = snd (apiCall k (run_store ?R'))"
        "k < maxRetries - 1 \<longrightarrow> (\<exists>v. run_result ?R' = Inr v)"
        by blast
      have inv_app: "invocations (evs @ tr) = invocations tr" for tr
        using evs by (induction evs rule: invocations.induct) simp_all
      have "attempt < Suc k" using k(1) by arith
      then have "[attempt..<Suc k] = attempt # [attempt + 1..<Suc k]"
        by (simp add: upt_conv_Cons del: upt_Suc)
      with k inv_app show ?thesis
        by (intro exI [of _ k]) (simp add: step del: upt_Suc)
    qed
  qed
qed


text \<open>
  C6. In a run with at least one attempt allowed, if the final attempt (the one of
  index \<open>maxAttempts - 1\<close>) is invoked and fails with \<open>e\<close>, the run raises \<open>e\<close>
  itself, and does not return a value. Conversely, an error is surfaced by no other
  path: if the run raises \<open>e\<close>, all \<open>maxAttempts\<close> attempts were invoked and \<open>e\<close> is
  what the final one failed with. The store a run ends with is the store its last
  invocation read, since nothing rotates after the last invocation.
\<close>

theorem C6_terminal_error_verbatim:
  assumes "0 < maxAttempts"
  shows "(maxAttempts - 1 \<in> set (invocations (run_trace (executeWithRetry apiCall maxAttempts baseDelay s)))
            \<and> snd (apiCall (maxAttempts - 1)
                      (run_store (executeWithRetry apiCall maxAttempts baseDelay s))) = Inl e
          \<longrightarrow> run_result (executeWithRetry apiCall maxAttempts baseDelay s) = Inl e) \<and>
         (run_result (executeWithRetry apiCall maxAttempts baseDelay s) = Inl e
          \<longrightarrow> invocations (run_trace (executeWithRetry apiCall maxAttempts baseDelay s)) =
                [0..<maxAttempts]
              \<and> snd (apiCall (maxAttempts - 1)
                        (run_store (executeWithRetry apiCall maxAttempts baseDelay s))) = Inl e)"
proof -
  let ?R = "executeWithRetry apiCall maxAttempts baseDelay s"
  from attempts_outcome [OF assms, of apiCall baseDelay Nullish s]
  obtain k where k: "k < maxAttempts"
      "invocations (run_trace ?R) = [0..<Suc k]"
      "run_result ?R = snd (apiCall k (run_store ?R))"
      "k < maxAttempts - 1 \<longrightarrow> (\<exists>v. run_result ?R = Inr v)"
    unfolding executeWithRetry_def by blast
  have a: "run_result ?R = Inl e"
    if "maxAttempts - 1 \<in> set (invocations (run_trace ?R))"
      and "snd (apiCall (maxAttempts - 1) (run_store ?R)) = Inl e"
  proof -
    from that(1) k(1,2) have "k = maxAttempts - 1" by (simp del: upt_Suc)
    with k(3) that(2) show ?thesis by simp
  qed
  have b: "invocations (run_trace ?R) = [0..<maxAttempts]
           \<and> snd (apiCall (maxAttempts - 1) (run_store ?R)) = Inl e"
    if "run_result ?R = Inl e"
  proof -
    from that k(4) have "\<not> k < maxAttempts - 1" by auto
    with k(1) have "k = maxAttempts - 1" by arith
    with k(2,3) that assms show ?thesis by simp
  qed
  from a b show ?thesis by blast
qed

theorem C6_terminal_error_verbatim_witness:
  "2 \<in> set (invocations (run_trace (executeWithRetry alwaysUnreachable 3 3000
                                        (storeOf [entryA] (Some ''A''))))) \<and>
   run_result (executeWithRetry alwaysUnreachable 3 3000 (storeOf [entryA] (Some ''A''))) =
     Inl (Error ''network unreachable'')"
  using C6_terminal_error_verbatim [of 3 alwaysUnreachable 3000 "storeOf [entryA] (Some ''A'')"
          "Error ''network unreachable''"]
    attempts_other_errors [of 0 3 alwaysUnreachable "storeOf [entryA] (Some ''A'')" 3000 Nullish]
  by (simp add: executeWithRetry_def alwaysUnreachable_def isRateLimitError_def Error_def
        invocations_all_tried del: upt_Suc)

section \<open>Properties of the generation functions\<close>

lemma trim_whitespace:
  assumes "\<forall>c\<in>set ky. isWhiteSpace c"
  shows "trim ky = []"
  using assms by (auto simp: trim_def dest: set_dropWhileD)

lemma no_key_run:
  assumes "\<forall>k. apiCall k s = ([], Inl noKeyError)" and "0 < maxRetries"
  shows "executeWithRetry apiCall maxRetries baseDelay s =
           (concat (map (\<lambda>k. (if k > 0 then [Sleep (baseDelay * 2 ^ (k - 1))] else [])
                               @ [Invoke k]) [0..<maxRetries]),
            Inl noKeyError, s)"
proof -
  from assms(1) noKeyError_not_rate_limit
  have "\<forall>k. 0 \<le> k \<and> k < maxRetries \<longrightarrow>
          (\<exists>e. snd (apiCall k s) = Inl e \<and> \<not> isRateLimitError e)"
    by simp
  then have "executeWithRetry apiCall maxRetries baseDelay s =
      (concat (map (\<lambda>k. tried apiCall baseDelay k s) [0..<maxRetries]),
       snd (apiCall (maxRetries - 1) s), s)"
    unfolding executeWithRetry_def using assms(2) by (rule attempts_other_errors)
  with assms(1) show ?thesis by (simp add: tried_def)
qed

lemma generateDesigns_no_key:
  assumes "getActiveKey s = None \<or> getActiveKey s = Some []"
  shows "generateDesigns remote s =
           ([Invoke 0, Sleep 3000, Invoke 1, Sleep 6000, Invoke 2], Inl noKeyError, s)"
proof -
  let ?cb = "\<lambda>n st. case getActiveKey st of
                  None \<Rightarrow> ([], Inl noKeyError)
                | Some apiKey \<Rightarrow>
                    if apiKey = [] then ([], Inl noKeyError)
                    else ([apiKey], remote n apiKey)"
  from assms have "\<forall>k. ?cb k s = ([], Inl noKeyError)" by auto
  then have "executeWithRetry ?cb 3 3000 s =
           (concat (map (\<lambda>k. (if k > 0 then [Sleep (3000 * 2 ^ (k - 1))] else [])
                               @ [Invoke k]) [0..<3]),
            Inl noKeyError, s)"
    by (rule no_key_run) simp
  then show ?thesis
    by (simp add: generateDesigns_def upt_conv_Cons numeral_3_eq_3)
qed

lemma generateImageForDesign_no_key:
  assumes "getActiveKey s = None \<or> getActiveKey s = Some []"
  shows "generateImageForDesign remote s = ([Invoke 0, Sleep 2000, Invoke 1], Inr None, s)"
proof -
  let ?cb = "\<lambda>n st. case getActiveKey st of
                  None \<Rightarrow> ([], Inl noKeyError)
                | Some apiKey \<Rightarrow>
                    if apiKey = [] then ([], Inl noKeyError)
                    else ([apiKey], remote n apiKey)"
  from assms have "\<forall>k. ?cb k s = ([], Inl noKeyError)" by auto
  then have "executeWithRetry ?cb 2 2000 s =
           (concat (map (\<lambda>k. (if k > 0 then [Sleep (2000 * 2 ^ (k - 1))] else [])
                               @ [Invoke k]) [0..<2]),
            Inl noKeyError, s)"
    by (rule no_key_run) simp
  then show ?thesis
    by (simp add: generateImageForDesign_def upt_conv_Cons numeral_2_eq_2)
qed

lemma generatePartDocumentation_no_key:
  "getActiveKey s = None \<or> getActiveKey s = Some [] \<Longrightarrow>
   generatePartDocumentation remote s = ([], Inr None, s)"
  by (auto simp: generatePartDocumentation_def)

lemma generateRealPartAbstract_no_key:
  "getActiveKey s = None \<or> getActiveKey s = Some [] \<Longrightarrow>
   generateRealPartAbstract remote s = ([], Inr None, s)"
  by (auto simp: generateRealPartAbstract_def)


lemma getActiveKey_empty_secret:
  "getActive s = Some a \<Longrightarrow> key a = [] \<Longrightarrow> getActiveKey s = Some []"
  by (simp add: getActiveKey_def)

lemma add_whitespace_secret:
  assumes "\<forall>c\<in>set ky. isWhiteSpace c"
  shows "getActive (snd (add now rnd now' nm ky emptyStorage)) =
           Some \<lparr>id' = ''key_'' @ decimal now @ ''_'' @ rnd, name = trim nm, key = [],
                 createdAt = now'\<rparr>"
  using trim_whitespace [OF assms]
  by (simp add: add_def Let_def getAll_def emptyStorage_def setActive_def getActive_def
        getActiveId_def)




text \<open>
  C10. When the active entry's secret is the empty string, \<open>getActiveKey\<close> returns the
  empty string, and each of the four generation functions does on that store what it
  does on a store \<open>s0\<close> with no credential at all: the same events in the same order,
  none of them a request to the remote service, the same result, the store untouched.
  Adding a secret made of whitespace only to the empty store produces such a state.
\<close>

theorem C10_empty_secret:
  assumes "getActive s = Some a" and "key a = []" and "getActiveKey s0 = None"
  shows "getActiveKey s = Some [] \<and>
         run_trace (generateDesigns remoteD s) = run_trace (generateDesigns remoteD s0) \<and>
         run_result (generateDesigns remoteD s) = run_result (generateDesigns remoteD s0) \<and>
         remoteRequests (run_trace (generateDesigns remoteD s)) = [] \<and>
         run_store (generateDesigns remoteD s) = s \<and>
         run_trace (generateImageForDesign remoteI s) =
           run_trace (generateImageForDesign remoteI s0) \<and>
         run_result (generateImageForDesign remoteI s) =
           run_result (generateImageForDesign remoteI s0) \<and>
         remoteRequests (run_trace (generateImageForDesign remoteI s)) = [] \<and>
         run_store (generateImageForDesign remoteI s) = s \<and>
         generatePartDocumentation remoteP s = ([], Inr None, s) \<and>
         generatePartDocumentation remoteP s0 = ([], Inr None, s0) \<and>
         generateRealPartAbstract remoteA s = ([], Inr None, s) \<and>
         generateRealPartAbstract remoteA s0 = ([], Inr None, s0) \<and>
         ((\<forall>c\<in>set ky. isWhiteSpace c) \<longrightarrow>
            getActiveKey (snd (add now rnd now' nm ky emptyStorage)) = Some [])"
proof -
  have k: "getActiveKey s = Some []"
    using assms(1,2) by (rule getActiveKey_empty_secret)
  have w: "getActiveKey (snd (add now rnd now' nm ky emptyStorage)) = Some []"
    if "\<forall>c\<in>set ky. isWhiteSpace c"
    using add_whitespace_secret [OF that] by (simp add: getActiveKey_def)
  from k assms(3) w show ?thesis
    by (simp add: generatePartDocumentation_no_key generateRealPartAbstract_no_key
          generateDesigns_no_key generateImageForDesign_no_key)
qed

theorem C10_empty_secret_witness:
  "getActiveKey (storeOf [entryBlank] (Some ''A'')) = Some [] \<and>
   run_result (generateDesigns remoteOk (storeOf [entryBlank] (Some ''A''))) = Inl noKeyError \<and>
   remoteRequests (run_trace (generateDesigns remoteOk (storeOf [entryBlank] (Some ''A'')))) = [] \<and>
   generatePartDocumentation remoteNone (storeOf [entryBlank] (Some ''A'')) =
     ([], Inr None, storeOf [entryBlank] (Some ''A'')) \<and>
   getActiveKey (snd (add 5 ''x7'' 6 ''main'' ''   '' emptyStorage)) = Some []"
  using C10_empty_secret [of "storeOf [entryBlank] (Some ''A'')" entryBlank emptyStorage
          remoteOk remoteNone remoteNone remoteNull "''   ''" 5 "''x7''" 6 "''main''"]
  by (simp add: getActiveKey_def getActive_def getActiveId_def getAll_def emptyStorage_def
        storeOf_def entryBlank_def isWhiteSpace_def generateDesigns_no_key)

end
